theory Spec2Isabelle
  imports Complex_Main
begin

section \<open>Microbe Music: the scale lab of \<^verbatim>\<open>src/app/page.tsx\<close>\<close>

text \<open>
  The page computes the frequencies of an equal division of the octave and plays them one
  after the other through an audio context. JavaScript numbers are modelled as real
  numbers (no NaN, no infinities, no rounding error of the floating-point operations).
  Doubles overflow and underflow where reals do not, so the order of the frequencies is
  stated on the ranges of the tuning parameters only, a base frequency in \<open>[50, 2000]\<close> and
  \<open>5\<close> to \<open>53\<close> divisions, and for the steps of the scale, where the doubles are far
  from both.
  The two integer parameters, \<^verbatim>\<open>edo\<close> and \<^verbatim>\<open>noteCount\<close>, are only ever written with
  a result of \<^verbatim>\<open>clampInt\<close> on integer bounds or with a constant of the preset table,
  so they are modelled as integers.
\<close>

subsection \<open>Scale arithmetic\<close>

text \<open>
  \<^verbatim>\<open>Math.max(min, Math.min(max, Math.round(n)))\<close>. \<^verbatim>\<open>Math.round\<close> rounds to the
  nearest integer, a half towards plus infinity, as \<^const>\<open>round\<close> does.
\<close>

definition clampInt :: "real \<Rightarrow> int \<Rightarrow> int \<Rightarrow> int" where
  "clampInt n mn mx = max mn (min mx (round n))"

text \<open>\<^verbatim>\<open>baseHz * Math.pow(2, step / edo)\<close>\<close>

definition freqForStep :: "real \<Rightarrow> nat \<Rightarrow> int \<Rightarrow> real" where
  "freqForStep baseHz step edo = baseHz * 2 powr (real step / real_of_int edo)"

text \<open>
  The body of the \<^verbatim>\<open>useMemo\<close> that builds \<^verbatim>\<open>freqs\<close>: the loop
  \<^verbatim>\<open>for (let i = 0; i < count; i++) list.push(freqForStep(baseHz, i, edo))\<close>.
\<close>

function freqs_loop :: "real \<Rightarrow> int \<Rightarrow> int \<Rightarrow> nat \<Rightarrow> real list \<Rightarrow> real list" where
  "freqs_loop baseHz edo count i list =
     (if int i < count
      then freqs_loop baseHz edo count (Suc i) (list @ [freqForStep baseHz i edo])
      else list)"
  by pat_completeness auto
termination
  by (relation "measure (\<lambda>(baseHz, edo, count, i, list). nat (count - int i))") auto

declare freqs_loop.simps [simp del]

definition freqs :: "real \<Rightarrow> int \<Rightarrow> int \<Rightarrow> real list" where
  "freqs baseHz edo noteCount =
     (let count = clampInt (real_of_int noteCount) 1 edo
      in freqs_loop baseHz edo count 0 [])"

text \<open>
  The rows of the scale table, \<^verbatim>\<open>freqs.map((f, i) => ...)\<close>: the step, the frequency
  and \<^verbatim>\<open>const cents = (1200 * i) / edo\<close>. The table prints the last two through
  \<^verbatim>\<open>toFixed\<close>; the rows here hold the numbers that are printed.
\<close>

definition cents :: "nat \<Rightarrow> int \<Rightarrow> real" where
  "cents i edo = (1200 * real i) / real_of_int edo"

fun scaleRows_from :: "nat \<Rightarrow> int \<Rightarrow> real list \<Rightarrow> (nat \<times> real \<times> real) list" where
  "scaleRows_from i edo [] = []"
| "scaleRows_from i edo (f # fs) = (i, f, cents i edo) # scaleRows_from (Suc i) edo fs"

definition scaleRows :: "real \<Rightarrow> int \<Rightarrow> int \<Rightarrow> (nat \<times> real \<times> real) list" where
  "scaleRows baseHz edo noteCount = scaleRows_from 0 edo (freqs baseHz edo noteCount)"

subsection \<open>The preset table\<close>

text \<open>The preset table \<^verbatim>\<open>PRESETS\<close>: a name and its \<^verbatim>\<open>edo\<close>.\<close>

definition PRESETS :: "(string \<times> int) list" where
  "PRESETS =
     [(''12-EDO (standard)'', 12), (''19-EDO'', 19), (''31-EDO'', 31), (''53-EDO'', 53)]"

subsection \<open>The audio backend\<close>

text \<open>
  The browser's \<^verbatim>\<open>AudioContext\<close> is not code of the page. Of its state the page reads
  \<^verbatim>\<open>"suspended"\<close> and \<^verbatim>\<open>"running"\<close> only, and it never closes the context. What the
  browser answers while one handler or continuation runs is a parameter of that run:
  the clock \<^verbatim>\<open>ctx.currentTime\<close>, the state of a context made by
  \<^verbatim>\<open>new AudioContext()\<close>, and whether \<^verbatim>\<open>resume()\<close> and \<^verbatim>\<open>suspend()\<close> fulfil or
  reject. A request that fulfils changes the state of the context when it is made; one
  that rejects leaves it as it was. The constructor is taken to succeed.
\<close>

datatype ctx_state = Suspended | Running

datatype ctx_error = Rejected

record browser =
  currentTime :: real
  createdState :: ctx_state
  resumeOk :: bool
  suspendOk :: bool

definition ctx_resume :: "browser \<Rightarrow> ctx_state \<Rightarrow> ctx_error + ctx_state" where
  "ctx_resume b c = (if resumeOk b then Inr Running else Inl Rejected)"

definition ctx_suspend :: "browser \<Rightarrow> ctx_state \<Rightarrow> ctx_error + ctx_state" where
  "ctx_suspend b c = (if suspendOk b then Inr Suspended else Inl Rejected)"

subsection \<open>One note\<close>

text \<open>
  What the loop body of \<^verbatim>\<open>playScale\<close> schedules for one frequency: the oscillator's
  type and frequency, the automation events of the gain, and the oscillator's start and
  stop times. Every note is wired the same way, oscillator to gain to destination, so the
  connections are not part of the record.
\<close>

datatype param_event =
  SetValueAtTime real real
  | ExponentialRampToValueAtTime real real

record tone =
  osc_type :: string
  osc_frequency :: "real \<times> real"
  gain_events :: "param_event list"
  osc_start :: real
  osc_stop :: real

definition noteMs :: real where "noteMs = 240"
definition gapMs :: real where "gapMs = 30"
definition attackMs :: real where "attackMs = 8"
definition releaseMs :: real where "releaseMs = 25"

definition scheduleNote :: "real \<Rightarrow> real \<Rightarrow> tone" where
  "scheduleNote f now =
     (let attack = attackMs / 1000;
          duration = noteMs / 1000;
          release = releaseMs / 1000
      in \<lparr> osc_type = ''sine'',
           osc_frequency = (f, now),
           gain_events =
             [SetValueAtTime 0.0001 now,
              ExponentialRampToValueAtTime 0.2 (now + attack),
              SetValueAtTime 0.2 (now + max attack (duration - release)),
              ExponentialRampToValueAtTime 0.0001 (now + duration)],
           osc_start = now,
           osc_stop = now + duration + 0.01 \<rparr>)"

subsection \<open>The page\<close>

text \<open>
  A call of the async function \<^verbatim>\<open>playScale\<close> that has reached an \<^verbatim>\<open>await\<close> is a task:
  it waits for \<^verbatim>\<open>ctx.resume()\<close> (with the outcome of that promise and the \<^verbatim>\<open>freqs\<close> of
  its closure), or for the timer of the note it has just started (with the delay in
  milliseconds and the frequencies the \<^verbatim>\<open>for ... of\<close> has still to visit), or it has
  returned, or it has thrown. Nothing of \<^verbatim>\<open>playScale\<close> or \<^verbatim>\<open>stop\<close> runs after their
  \<^verbatim>\<open>await ctx.suspend()\<close>, so that await is not a state of its own.
\<close>

datatype task =
  AwaitResume "ctx_error + unit" "real list"
  | AwaitTimer real "real list"
  | Returned
  | Threw ctx_error

text \<open>
  The React state and refs of \<^verbatim>\<open>Home\<close>, the tasks in the order they were started, and
  the notes started so far, each with the index of the task that started it.
\<close>

record page =
  baseHz :: real
  edo :: int
  noteCount :: int
  presetName :: string
  audioCtx :: "ctx_state option"
  stopFlag :: bool
  playing :: bool
  tasks :: "task list"
  played :: "(nat \<times> tone) list"

definition initial :: page where
  "initial =
     \<lparr> baseHz = 440, edo = 12, noteCount = 12, presetName = fst (PRESETS ! 0),
       audioCtx = None, stopFlag = False, playing = False, tasks = [], played = [] \<rparr>"

subsection \<open>The input handlers\<close>

text \<open>
  The two effects on \<^verbatim>\<open>[edo]\<close>: \<^verbatim>\<open>setNoteCount((n) => clampInt(n, 1, edo))\<close> and
  \<^verbatim>\<open>setPresetName(match ? match.name : "Custom")\<close>. They run when \<^verbatim>\<open>edo\<close> has
  changed.
\<close>

definition edoEffects :: "page \<Rightarrow> page" where
  "edoEffects s =
     s\<lparr> noteCount := clampInt (real_of_int (noteCount s)) 1 (edo s),
        presetName := (case find (\<lambda>p. snd p = edo s) PRESETS of
                         Some p \<Rightarrow> fst p | None \<Rightarrow> ''Custom'') \<rparr>"

definition setEdo :: "int \<Rightarrow> page \<Rightarrow> page" where
  "setEdo e s = (if e = edo s then s else edoEffects (s\<lparr> edo := e \<rparr>))"

text \<open>
  The \<^verbatim>\<open>onChange\<close> handlers; the argument \<^verbatim>\<open>v\<close> is \<^verbatim>\<open>Number(e.target.value)\<close>.
  \<^verbatim>\<open>setBaseHz(Number(e.target.value))\<close>,
  \<^verbatim>\<open>setEdo(clampInt(Number(e.target.value), 5, 53))\<close>,
  \<^verbatim>\<open>setNoteCount(clampInt(Number(e.target.value), 1, edo))\<close>.
\<close>

definition onChangeBaseHz :: "real \<Rightarrow> page \<Rightarrow> page" where
  "onChangeBaseHz v s = s\<lparr> baseHz := v \<rparr>"

definition onChangeEdo :: "real \<Rightarrow> page \<Rightarrow> page" where
  "onChangeEdo v s = setEdo (clampInt v 5 53) s"

definition onChangeNoteCount :: "real \<Rightarrow> page \<Rightarrow> page" where
  "onChangeNoteCount v s = s\<lparr> noteCount := clampInt v 1 (edo s) \<rparr>"

definition onChangePreset :: "string \<Rightarrow> page \<Rightarrow> page" where
  "onChangePreset name s =
     (let s1 = s\<lparr> presetName := name \<rparr>
      in case find (\<lambda>x. fst x = name) PRESETS of
           Some p \<Rightarrow> setEdo (snd p) s1
         | None \<Rightarrow> s1)"

text \<open>The \<^verbatim>\<open>freqs\<close> of the current render.\<close>

definition pageFreqs :: "page \<Rightarrow> real list" where
  "pageFreqs s = freqs (baseHz s) (edo s) (noteCount s)"

subsection \<open>Playback\<close>

text \<open>
  \<^verbatim>\<open>if (ctx && ctx.state === "running") { try { await ctx.suspend(); } catch { } }\<close>,
  as \<^verbatim>\<open>stop\<close> and the end of \<^verbatim>\<open>playScale\<close> both have it: a rejection is caught and
  ignored.
\<close>

definition suspendIfRunning :: "browser \<Rightarrow> page \<Rightarrow> page" where
  "suspendIfRunning b s =
     (case audioCtx s of
        Some Running \<Rightarrow>
          (case ctx_suspend b Running of
             Inr c \<Rightarrow> s\<lparr> audioCtx := Some c \<rparr>
           | Inl e \<Rightarrow> s)
      | _ \<Rightarrow> s)"

definition stop :: "browser \<Rightarrow> page \<Rightarrow> page" where
  "stop b s = suspendIfRunning b (s\<lparr> stopFlag := True, playing := False \<rparr>)"

definition ensureAudioContext :: "browser \<Rightarrow> page \<Rightarrow> ctx_state \<times> page" where
  "ensureAudioContext b s =
     (case audioCtx s of
        Some c \<Rightarrow> (c, s)
      | None \<Rightarrow> (createdState b, s\<lparr> audioCtx := Some (createdState b) \<rparr>))"

text \<open>
  The code after the loop: \<^verbatim>\<open>playingRef.current = false\<close>, then the suspension when
  the stop flag is set. The task has returned.
\<close>

definition playExit :: "browser \<Rightarrow> page \<Rightarrow> task \<times> page" where
  "playExit b s =
     (let s1 = s\<lparr> playing := False \<rparr>
      in (Returned, if stopFlag s1 then suspendIfRunning b s1 else s1))"

text \<open>
  The \<^verbatim>\<open>for (const f of freqs)\<close> loop of task \<^verbatim>\<open>k\<close> from the head of an iteration to
  the next \<^verbatim>\<open>await\<close>, with the frequencies not yet visited: the loop is left when there
  is none or the stop flag is set, else the note is scheduled and the task waits for
  \<^verbatim>\<open>setTimeout(r, noteMs + gapMs)\<close>. The \<^verbatim>\<open>disconnect\<close> calls after the wait change
  nothing of this state.
\<close>

definition playLoop :: "nat \<Rightarrow> browser \<Rightarrow> real list \<Rightarrow> page \<Rightarrow> task \<times> page" where
  "playLoop k b fs s =
     (case fs of
        [] \<Rightarrow> playExit b s
      | f # rest \<Rightarrow>
          if stopFlag s then playExit b s
          else (AwaitTimer (noteMs + gapMs) rest,
                s\<lparr> played := played s @ [(k, scheduleNote f (currentTime b))] \<rparr>))"

text \<open>
  A click on Play: \<^verbatim>\<open>playScale\<close> up to its first \<^verbatim>\<open>await\<close>. When the context is
  running there is no \<^verbatim>\<open>await\<close> before the loop, and the first note is started in the
  click itself.
\<close>

definition playScale :: "browser \<Rightarrow> page \<Rightarrow> page" where
  "playScale b s =
     (if playing s then s
      else
        let fs = pageFreqs s;
            k = length (tasks s);
            s1 = s\<lparr> stopFlag := False, playing := True \<rparr>;
            (ctx, s2) = ensureAudioContext b s1
        in if ctx = Suspended
           then (case ctx_resume b ctx of
                   Inr c \<Rightarrow> s2\<lparr> audioCtx := Some c, tasks := tasks s2 @ [AwaitResume (Inr ()) fs] \<rparr>
                 | Inl e \<Rightarrow> s2\<lparr> tasks := tasks s2 @ [AwaitResume (Inl e) fs] \<rparr>)
           else (let (t, s3) = playLoop k b fs s2
                 in s3\<lparr> tasks := tasks s3 @ [t] \<rparr>))"

text \<open>
  The promise that task \<^verbatim>\<open>k\<close> awaits settles and the task runs on to its next
  \<^verbatim>\<open>await\<close> or its end. \<^verbatim>\<open>await ctx.resume()\<close> stands outside every \<^verbatim>\<open>try\<close>: when
  the promise rejects, \<^verbatim>\<open>playScale\<close> throws there.
\<close>

definition settle :: "nat \<Rightarrow> browser \<Rightarrow> page \<Rightarrow> page" where
  "settle k b s =
     (if k < length (tasks s)
      then (case tasks s ! k of
              AwaitResume r fs \<Rightarrow>
                (case r of
                   Inr u \<Rightarrow> (let (t, s1) = playLoop k b fs s in s1\<lparr> tasks := (tasks s1)[k := t] \<rparr>)
                 | Inl e \<Rightarrow> s\<lparr> tasks := (tasks s)[k := Threw e] \<rparr>)
            | AwaitTimer d fs \<Rightarrow>
                (let (t, s1) = playLoop k b fs s in s1\<lparr> tasks := (tasks s1)[k := t] \<rparr>)
            | Returned \<Rightarrow> s
            | Threw e \<Rightarrow> s)
      else s)"

subsection \<open>The event loop\<close>

text \<open>
  JavaScript runs one handler or continuation at a time, each to its next \<^verbatim>\<open>await\<close>.
  An execution of the page is a list of such runs, in the order the browser makes them.
\<close>

datatype event =
  ClickPlay browser
  | ClickStop browser
  | Settle nat browser
  | ChangeBaseHz real
  | ChangeEdo real
  | ChangeNoteCount real
  | ChangePreset string

fun step :: "event \<Rightarrow> page \<Rightarrow> page" where
  "step (ClickPlay b) s = playScale b s"
| "step (ClickStop b) s = stop b s"
| "step (Settle k b) s = settle k b s"
| "step (ChangeBaseHz v) s = onChangeBaseHz v s"
| "step (ChangeEdo v) s = onChangeEdo v s"
| "step (ChangeNoteCount v) s = onChangeNoteCount v s"
| "step (ChangePreset name) s = onChangePreset name s"

fun run :: "event list \<Rightarrow> page \<Rightarrow> page" where
  "run [] s = s"
| "run (e # es) s = run es (step e s)"

text \<open>The frequencies of the notes that task \<^verbatim>\<open>k\<close> has started, in order.\<close>

definition startedBy :: "nat \<Rightarrow> page \<Rightarrow> real list" where
  "startedBy k s = map (\<lambda>p. fst (osc_frequency (snd p))) (filter (\<lambda>p. fst p = k) (played s))"

fun isTuning :: "event \<Rightarrow> bool" where
  "isTuning (ChangeBaseHz v) = True"
| "isTuning (ChangeEdo v) = True"
| "isTuning (ChangeNoteCount v) = True"
| "isTuning (ChangePreset name) = True"
| "isTuning e = False"

fun isPlay :: "event \<Rightarrow> bool" where
  "isPlay (ClickPlay b) = True"
| "isPlay e = False"

fun live :: "task \<Rightarrow> bool" where
  "live (AwaitResume r fs) = True"
| "live (AwaitTimer d fs) = True"
| "live Returned = False"
| "live (Threw e) = False"

fun isSettle :: "event \<Rightarrow> bool" where
  "isSettle (Settle k b) = True"
| "isSettle e = False"

fun isSettleOf :: "nat \<Rightarrow> event \<Rightarrow> bool" where
  "isSettleOf k (Settle j b) = (j = k)"
| "isSettleOf k e = False"

definition idle :: "page \<Rightarrow> bool" where
  "idle s = (\<not> playing s \<and> list_all (\<lambda>t. \<not> live t) (tasks s))"

subsection \<open>Invariants used in the proofs\<close>

text \<open>
  Task \<open>k\<close> follows the list \<open>fs\<close>: what it has started since it was called is a prefix of
  \<open>fs\<close>, and what it has still to visit is the rest of \<open>fs\<close>.
\<close>

definition follows :: "nat \<Rightarrow> real list \<Rightarrow> real list \<Rightarrow> page \<Rightarrow> bool" where
  "follows k pre fs s =
     (k < length (tasks s) \<and>
      (\<exists>n. n \<le> length fs \<and> startedBy k s = pre @ take n fs \<and>
         (\<forall>r rest. tasks s ! k = AwaitResume r rest \<longrightarrow> rest = drop n fs) \<and>
         (\<forall>d rest. tasks s ! k = AwaitTimer d rest \<longrightarrow> rest = drop n fs)))"


definition tuningOk :: "page \<Rightarrow> bool" where
  "tuningOk s = (5 \<le> edo s \<and> edo s \<le> 53 \<and> 1 \<le> noteCount s \<and> noteCount s \<le> edo s)"

text \<open>Two answers of the browser used in the examples below.\<close>

definition cooperative :: browser where
  "cooperative = \<lparr> currentTime = 0, createdState = Running, resumeOk = True, suspendOk = True \<rparr>"

definition refusing :: browser where
  "refusing = \<lparr> currentTime = 0, createdState = Suspended, resumeOk = False, suspendOk = False \<rparr>"

section \<open>Properties\<close>

subsection \<open>The loop that builds the frequency list\<close>

lemma freqs_loop_eq:
  "freqs_loop b d c i l =
     l @ map (\<lambda>k. freqForStep b k d) [i ..< nat c]"
proof (induction b d c i l rule: freqs_loop.induct)
  case (1 b d c i l)
  show ?case
  proof (cases "int i < c")
    case True
    then have "i < nat c" by simp
    then have "[i ..< nat c] = i # [Suc i ..< nat c]"
      by (simp add: upt_conv_Cons)
    with True "1.IH" show ?thesis
      by (subst freqs_loop.simps) simp
  next
    case False
    then have "nat c \<le> i" by simp
    with False show ?thesis
      by (subst freqs_loop.simps) simp
  qed
qed

lemma clampInt_ge_min: "mn \<le> clampInt n mn mx"
  by (simp add: clampInt_def)

lemma clampInt_le_max: "mn \<le> mx \<Longrightarrow> clampInt n mn mx \<le> mx"
  by (simp add: clampInt_def)

lemma clampInt_of_int: "clampInt (real_of_int k) mn mx = max mn (min mx k)"
  by (simp add: clampInt_def)

lemma freqs_eq_map:
  "freqs b d n =
     map (\<lambda>k. freqForStep b k d) [0 ..< nat (clampInt (real_of_int n) 1 d)]"
  by (simp add: freqs_def Let_def freqs_loop_eq)

lemma scaleRows_from_eq:
  "scaleRows_from i d fs = map (\<lambda>k. (i + k, fs ! k, cents (i + k) d)) [0 ..< length fs]"
proof (induction fs arbitrary: i)
  case Nil
  show ?case by simp
next
  case (Cons f fs)
  have "[0 ..< length (f # fs)] = 0 # map Suc [0 ..< length fs]"
    by (simp add: upt_conv_Cons map_Suc_upt del: upt_Suc)
  then show ?case
    by (simp add: Cons.IH comp_def del: upt_Suc)
qed

subsection \<open>The scale\<close>

lemma freqs_nonempty: "0 < length (freqs b d n)"
proof -
  have "1 \<le> clampInt (real_of_int n) 1 d" by (rule clampInt_ge_min)
  then show ?thesis by (simp add: freqs_eq_map)
qed

lemma freqs_length: "int (length (freqs b d n)) = clampInt (real_of_int n) 1 d"
proof -
  have "1 \<le> clampInt (real_of_int n) 1 d" by (rule clampInt_ge_min)
  then show ?thesis by (simp add: freqs_eq_map)
qed

lemma freqs_nth: "i < length (freqs b d n) \<Longrightarrow> freqs b d n ! i = freqForStep b i d"
  by (simp add: freqs_eq_map)

lemma scaleRows_nth:
  "i < length (freqs b d n) \<Longrightarrow> scaleRows b d n ! i = (i, freqForStep b i d, cents i d)"
  by (simp add: scaleRows_def scaleRows_from_eq freqs_nth del: upt_Suc)

lemma freqForStep_strict_mono:
  assumes "50 \<le> b" and "5 \<le> d" and "i < j"
  shows "freqForStep b i d < freqForStep b j d"
proof -
  from assms(1) have b: "0 < b" by simp
  from assms(2,3) have "real i / real_of_int d < real j / real_of_int d"
    by (simp add: divide_strict_right_mono)
  then have "(2::real) powr (real i / real_of_int d) < 2 powr (real j / real_of_int d)"
    by simp
  with b show ?thesis
    by (simp add: freqForStep_def)
qed

lemma cents_strict_mono:
  assumes "5 \<le> d" and "i < j"
  shows "cents i d < cents j d"
  using assms by (simp add: cents_def divide_strict_right_mono)

lemma upt_2: "[0..<2] = [0, 1 :: nat]"
  by code_simp

lemma upt_12: "[0..<12] = [0, 1, 2, 3, 4, 5, 6, 7, 8, 9, 10, 11 :: nat]"
  by code_simp

lemma freqs_initial:
  "freqs b 12 12 = map (\<lambda>k. freqForStep b k 12) [0, 1, 2, 3, 4, 5, 6, 7, 8, 9, 10, 11]"
proof -
  have "nat (clampInt (real_of_int 12) 1 12) = 12"
    by (simp add: clampInt_def)
  then show ?thesis
    by (simp only: freqs_eq_map upt_12)
qed

text \<open>
  C4. For every base frequency, division count and note count, the list \<^verbatim>\<open>freqs\<close> holds
  the frequencies of the steps \<open>0, 1, ...\<close> in order, the table has one row for each of
  these steps, and their number is \<^verbatim>\<open>clampInt(noteCount, 1, edo)\<close>, which is the note
  count clamped to \<open>[1, edo]\<close>.
\<close>

theorem scale_length:
  "freqs b d n = map (\<lambda>k. freqForStep b k d) [0 ..< length (freqs b d n)]
   \<and> map fst (scaleRows b d n) = [0 ..< length (freqs b d n)]
   \<and> int (length (freqs b d n)) = clampInt (real_of_int n) 1 d
   \<and> int (length (freqs b d n)) = max 1 (min d n)"
proof -
  have "freqs b d n = map (\<lambda>k. freqForStep b k d) [0 ..< length (freqs b d n)]"
    by (simp add: freqs_eq_map)
  moreover have "map fst (scaleRows b d n) = [0 ..< length (freqs b d n)]"
    by (simp add: scaleRows_def scaleRows_from_eq comp_def map_idI del: upt_Suc)
  ultimately show ?thesis
    using freqs_length [of b d n] clampInt_of_int [of n 1 d] by simp
qed

text \<open>
  C5. The entry of step \<open>i\<close> is \<open>b * 2 powr (i / d)\<close>, and its row in the table holds the
  step, that frequency and \<open>1200 * i / d\<close> cents; step \<open>0\<close> is the base frequency at
  \<open>0\<close> cents.
\<close>

theorem scale_entries:
  assumes "i < length (freqs b d n)"
  shows "freqs b d n ! i = b * 2 powr (real i / real_of_int d)
      \<and> scaleRows b d n ! i =
          (i, b * 2 powr (real i / real_of_int d), 1200 * real i / real_of_int d)
      \<and> freqs b d n ! 0 = b
      \<and> scaleRows b d n ! 0 = (0, b, 0)"
  using assms freqs_nonempty [of b d n]
  by (simp add: freqs_nth scaleRows_nth freqForStep_def cents_def)

theorem scale_entries_witness:
  "7 < length (freqs 440 12 12)
   \<and> freqs 440 12 12 ! 7 = 440 * 2 powr (7 / 12)
   \<and> scaleRows 440 12 12 ! 7 = (7, 440 * 2 powr (7 / 12), 700)
   \<and> freqs 440 12 12 ! 0 = 440
   \<and> scaleRows 440 12 12 ! 0 = (0, 440, 0)"
proof -
  have len: "7 < length (freqs 440 12 12)"
    by (simp add: freqs_initial)
  from scale_entries [OF len] len show ?thesis by simp
qed

text \<open>
  C6. For a base frequency in \<open>[50, 2000]\<close> and \<open>5\<close> to \<open>53\<close> divisions, the ranges of the
  tuning parameters, and any two steps of the scale, the later step has the higher
  frequency and the more cents: in the list, in the rows of the table, and for the two
  formulas at these steps.
\<close>

theorem scale_monotone:
  assumes "50 \<le> b" and "b \<le> 2000" and "5 \<le> d" and "d \<le> 53"
    and "step1 < step2" and "step2 < length (freqs b d n)"
  shows "freqs b d n ! step1 < freqs b d n ! step2
      \<and> snd (snd (scaleRows b d n ! step1)) < snd (snd (scaleRows b d n ! step2))
      \<and> freqForStep b step1 d < freqForStep b step2 d
      \<and> cents step1 d < cents step2 d"
proof -
  from assms(5,6) have "step1 < length (freqs b d n)" by simp
  with assms show ?thesis
    by (simp add: freqs_nth scaleRows_nth freqForStep_strict_mono cents_strict_mono)
qed

theorem scale_monotone_witness:
  "(50::real) \<le> 440 \<and> (440::real) \<le> 2000 \<and> (5::int) \<le> 12 \<and> (12::int) \<le> 53
   \<and> (3::nat) < 7 \<and> 7 < length (freqs 440 12 12)
   \<and> freqs 440 12 12 ! 3 < freqs 440 12 12 ! 7
   \<and> snd (snd (scaleRows 440 12 12 ! 3)) < snd (snd (scaleRows 440 12 12 ! 7))
   \<and> freqForStep 440 3 12 < freqForStep 440 7 12
   \<and> cents 3 12 < cents 7 12"
proof -
  have len: "7 < length (freqs 440 12 12)"
    by (simp add: freqs_initial)
  have "(50::real) \<le> 440" "(440::real) \<le> 2000" "(5::int) \<le> 12" "(12::int) \<le> 53"
    "(3::nat) < 7"
    by simp_all
  from scale_monotone [OF this len] len show ?thesis by simp
qed

subsection \<open>What each handler changes\<close>

lemma suspendIfRunning_frame [simp]:
  "tasks (suspendIfRunning b s) = tasks s"
  "played (suspendIfRunning b s) = played s"
  "stopFlag (suspendIfRunning b s) = stopFlag s"
  "playing (suspendIfRunning b s) = playing s"
  "baseHz (suspendIfRunning b s) = baseHz s"
  "edo (suspendIfRunning b s) = edo s"
  "noteCount (suspendIfRunning b s) = noteCount s"
  by (simp_all add: suspendIfRunning_def split: option.splits ctx_state.splits sum.splits)

lemma suspendIfRunning_audio:
  "audioCtx (suspendIfRunning b s) =
     (if audioCtx s = Some Running \<and> suspendOk b then Some Suspended else audioCtx s)"
  by (simp add: suspendIfRunning_def ctx_suspend_def split: option.splits ctx_state.splits)

lemma stop_frame [simp]:
  "tasks (stop b s) = tasks s"
  "played (stop b s) = played s"
  "stopFlag (stop b s) = True"
  "playing (stop b s) = False"
  "baseHz (stop b s) = baseHz s"
  "edo (stop b s) = edo s"
  "noteCount (stop b s) = noteCount s"
  by (simp_all add: stop_def)

lemma stop_audio:
  "audioCtx (stop b s) =
     (if audioCtx s = Some Running \<and> suspendOk b then Some Suspended else audioCtx s)"
  by (simp add: stop_def suspendIfRunning_audio)

lemma setEdo_frame [simp]:
  "tasks (setEdo e s) = tasks s"
  "played (setEdo e s) = played s"
  "stopFlag (setEdo e s) = stopFlag s"
  "playing (setEdo e s) = playing s"
  "audioCtx (setEdo e s) = audioCtx s"
  "baseHz (setEdo e s) = baseHz s"
  by (simp_all add: setEdo_def edoEffects_def)

lemma tuning_frame:
  assumes "isTuning e"
  shows "tasks (step e s) = tasks s" and "played (step e s) = played s"
    and "stopFlag (step e s) = stopFlag s" and "playing (step e s) = playing s"
    and "audioCtx (step e s) = audioCtx s"
  using assms
  by (cases e; simp add: onChangeBaseHz_def onChangeEdo_def onChangeNoteCount_def
        onChangePreset_def Let_def split: option.splits)+

lemma playExit_eq:
  "playExit b s =
     (Returned, if stopFlag s then suspendIfRunning b (s\<lparr> playing := False \<rparr>)
                else s\<lparr> playing := False \<rparr>)"
  by (simp add: playExit_def Let_def)

lemma playLoop_stopped: "stopFlag s \<Longrightarrow> playLoop k b fs s = playExit b s"
  by (simp add: playLoop_def split: list.splits)

lemma playLoop_Nil: "playLoop k b [] s = playExit b s"
  by (simp add: playLoop_def)

lemma playLoop_Cons:
  "\<not> stopFlag s \<Longrightarrow>
   playLoop k b (f # rest) s =
     (AwaitTimer (noteMs + gapMs) rest,
      s\<lparr> played := played s @ [(k, scheduleNote f (currentTime b))] \<rparr>)"
  by (simp add: playLoop_def)

lemma settle_dead: "k < length (tasks s) \<Longrightarrow> \<not> live (tasks s ! k) \<Longrightarrow> settle k b s = s"
  by (cases "tasks s ! k") (simp_all add: settle_def)

lemma settle_out: "\<not> k < length (tasks s) \<Longrightarrow> settle k b s = s"
  by (simp add: settle_def)

lemma startedBy_append:
  "startedBy k (s\<lparr> played := played s @ [(j, t)] \<rparr>) =
     startedBy k s @ (if j = k then [fst (osc_frequency t)] else [])"
  by (simp add: startedBy_def)

lemma scheduleNote_frequency [simp]: "fst (osc_frequency (scheduleNote f t)) = f"
  by (simp add: scheduleNote_def Let_def)


lemma settle_waiting:
  assumes "k < length (tasks s)"
    and "tasks s ! k = AwaitTimer d fs \<or> tasks s ! k = AwaitResume (Inr u) fs"
  shows "settle k b s = (let (t, s1) = playLoop k b fs s in s1\<lparr> tasks := (tasks s1)[k := t] \<rparr>)"
  using assms by (auto simp add: settle_def)

lemma settle_exit:
  assumes "k < length (tasks s)"
    and "tasks s ! k = AwaitTimer d fs \<or> tasks s ! k = AwaitResume (Inr u) fs"
    and "stopFlag s \<or> fs = []"
  shows "settle k b s = (snd (playExit b s))\<lparr> tasks := (tasks s)[k := Returned] \<rparr>"
proof -
  from assms(3) have "playLoop k b fs s = playExit b s"
    by (auto simp add: playLoop_stopped playLoop_Nil)
  then show ?thesis
    using settle_waiting [OF assms(1,2), where b = b] by (simp add: playExit_eq)
qed

lemma settle_emit:
  assumes "k < length (tasks s)"
    and "tasks s ! k = AwaitTimer d (f # rest) \<or> tasks s ! k = AwaitResume (Inr u) (f # rest)"
    and "\<not> stopFlag s"
  shows "settle k b s =
           s\<lparr> played := played s @ [(k, scheduleNote f (currentTime b))],
              tasks := (tasks s)[k := AwaitTimer (noteMs + gapMs) rest] \<rparr>"
  using settle_waiting [OF assms(1,2), where b = b] assms(3) by (simp add: playLoop_Cons)

lemma settle_throw:
  assumes "k < length (tasks s)" and "tasks s ! k = AwaitResume (Inl e) fs"
  shows "settle k b s = s\<lparr> tasks := (tasks s)[k := Threw e] \<rparr>"
  using assms by (simp add: settle_def)

lemma playExit_frame [simp]:
  "tasks (snd (playExit b s)) = tasks s"
  "played (snd (playExit b s)) = played s"
  "stopFlag (snd (playExit b s)) = stopFlag s"
  "playing (snd (playExit b s)) = False"
  by (simp_all add: playExit_eq)

lemma playExit_audio:
  "audioCtx (snd (playExit b s)) =
     (if stopFlag s \<and> audioCtx s = Some Running \<and> suspendOk b then Some Suspended
      else audioCtx s)"
  by (simp add: playExit_eq suspendIfRunning_audio)

lemma settle_stopped:
  assumes "stopFlag s"
  shows "played (settle j b s) = played s"
    and "stopFlag (settle j b s)"
    and "length (tasks (settle j b s)) = length (tasks s)"
    and "i \<noteq> j \<Longrightarrow> tasks (settle j b s) ! i = tasks s ! i"
    and "audioCtx s \<noteq> Some Running \<Longrightarrow> audioCtx (settle j b s) \<noteq> Some Running"
proof -
  consider (out) "\<not> j < length (tasks s)"
    | (dead) "j < length (tasks s)" "\<not> live (tasks s ! j)"
    | (throw) e fs where "j < length (tasks s)" "tasks s ! j = AwaitResume (Inl e) fs"
    | (wait) d u fs where "j < length (tasks s)"
        "tasks s ! j = AwaitTimer d fs \<or> tasks s ! j = AwaitResume (Inr u) fs"
  proof (cases "j < length (tasks s)")
    case False
    then show ?thesis using out by simp
  next
    case True
    show ?thesis
    proof (cases "tasks s ! j")
      case (AwaitResume r fs)
      then show ?thesis using True throw wait by (cases r) auto
    next
      case (AwaitTimer d fs)
      then show ?thesis using True wait [of d fs] by simp
    next
      case Returned
      then show ?thesis using True dead by simp
    next
      case (Threw e)
      then show ?thesis using True dead by simp
    qed
  qed
  then have "played (settle j b s) = played s \<and> stopFlag (settle j b s)
      \<and> length (tasks (settle j b s)) = length (tasks s)
      \<and> (i \<noteq> j \<longrightarrow> tasks (settle j b s) ! i = tasks s ! i)
      \<and> (audioCtx s \<noteq> Some Running \<longrightarrow> audioCtx (settle j b s) \<noteq> Some Running)"
  proof cases
    case out
    then show ?thesis using assms by (simp add: settle_out)
  next
    case dead
    then show ?thesis using assms by (simp add: settle_dead)
  next
    case throw
    then show ?thesis using assms by (simp add: settle_throw)
  next
    case wait
    from settle_exit [OF wait(1,2), where b = b] assms
    have "settle j b s = (snd (playExit b s))\<lparr> tasks := (tasks s)[j := Returned] \<rparr>"
      by simp
    then show ?thesis using assms by (simp add: playExit_audio)
  qed
  then show "played (settle j b s) = played s"
    and "stopFlag (settle j b s)"
    and "length (tasks (settle j b s)) = length (tasks s)"
    and "i \<noteq> j \<Longrightarrow> tasks (settle j b s) ! i = tasks s ! i"
    and "audioCtx s \<noteq> Some Running \<Longrightarrow> audioCtx (settle j b s) \<noteq> Some Running"
    by simp_all
qed

lemma stopped_step:
  assumes "\<not> isPlay e" and "\<not> isSettleOf k e" and "stopFlag s"
  shows "stopFlag (step e s)"
    and "played (step e s) = played s"
    and "length (tasks (step e s)) = length (tasks s)"
    and "tasks (step e s) ! k = tasks s ! k"
    and "audioCtx s \<noteq> Some Running \<Longrightarrow> audioCtx (step e s) \<noteq> Some Running"
proof -
  have "stopFlag (step e s) \<and> played (step e s) = played s
      \<and> length (tasks (step e s)) = length (tasks s)
      \<and> tasks (step e s) ! k = tasks s ! k
      \<and> (audioCtx s \<noteq> Some Running \<longrightarrow> audioCtx (step e s) \<noteq> Some Running)"
  proof (cases e)
    case (ClickPlay b)
    then show ?thesis using assms(1) by simp
  next
    case (ClickStop b)
    then show ?thesis by (simp add: stop_audio)
  next
    case (Settle j b)
    with assms(2) have "k \<noteq> j" by simp
    then show ?thesis using Settle by (simp add: settle_stopped [OF assms(3)])
  next
    case (ChangeBaseHz v)
    then have "isTuning e" by simp
    then show ?thesis using assms(3) by (simp add: tuning_frame)
  next
    case (ChangeEdo v)
    then have "isTuning e" by simp
    then show ?thesis using assms(3) by (simp add: tuning_frame)
  next
    case (ChangeNoteCount v)
    then have "isTuning e" by simp
    then show ?thesis using assms(3) by (simp add: tuning_frame)
  next
    case (ChangePreset name)
    then have "isTuning e" by simp
    then show ?thesis using assms(3) by (simp add: tuning_frame)
  qed
  then show "stopFlag (step e s)"
    and "played (step e s) = played s"
    and "length (tasks (step e s)) = length (tasks s)"
    and "tasks (step e s) ! k = tasks s ! k"
    and "audioCtx s \<noteq> Some Running \<Longrightarrow> audioCtx (step e s) \<noteq> Some Running"
    by simp_all
qed

lemma stopped_run:
  assumes "\<forall>e\<in>set evs. \<not> isPlay e \<and> \<not> isSettleOf k e" and "stopFlag s"
  shows "stopFlag (run evs s) \<and> played (run evs s) = played s
      \<and> length (tasks (run evs s)) = length (tasks s)
      \<and> tasks (run evs s) ! k = tasks s ! k
      \<and> (audioCtx s \<noteq> Some Running \<longrightarrow> audioCtx (run evs s) \<noteq> Some Running)"
  using assms
proof (induction evs arbitrary: s)
  case Nil
  then show ?case by simp
next
  case (Cons e evs)
  from Cons.prems have e: "\<not> isPlay e" "\<not> isSettleOf k e" by simp_all
  note st = stopped_step [OF e Cons.prems(2)]
  from Cons.prems have "\<forall>e\<in>set evs. \<not> isPlay e \<and> \<not> isSettleOf k e" by simp
  from Cons.IH [OF this st(1)] st show ?case by simp
qed

lemma run_append: "run (xs @ ys) s = run ys (run xs s)"
  by (induction xs arbitrary: s) simp_all

subsection \<open>Examples on the initial page\<close>

lemmas trace_defs = cooperative_def refusing_def initial_def playScale_def stop_def settle_def
  playLoop_def playExit_def suspendIfRunning_def ensureAudioContext_def ctx_resume_def
  ctx_suspend_def pageFreqs_def Let_def freqs_initial

lemma freqs_two: "freqs b 12 2 = [freqForStep b 0 12, freqForStep b 1 12]"
proof -
  have "nat (clampInt (real_of_int 2) 1 12) = 2"
    by (simp add: clampInt_def)
  then show ?thesis
    by (simp only: freqs_eq_map upt_2) simp
qed

lemmas two_defs = onChangeNoteCount_def onChangeBaseHz_def clampInt_def trace_defs freqs_two idle_def startedBy_def noteMs_def gapMs_def

subsection \<open>Stopping a sequence\<close>

text \<open>
  C1, as the code has it. Task \<open>k\<close> waits for the timer of a note (or for the resume
  before its first), \<^verbatim>\<open>stop()\<close> runs, and until task \<open>k\<close> is continued no
  \<^verbatim>\<open>playScale()\<close> runs (other handlers and the continuations of other tasks may). Then no note at all is started after the stop, the
  continuation of task \<open>k\<close> finds the flag set at its check, leaves the loop and returns,
  \<^verbatim>\<open>playingRef\<close> is false, and when the \<^verbatim>\<open>suspend()\<close> of \<^verbatim>\<open>stop\<close> or the one after
  the loop fulfils, the context is not running.
\<close>

theorem stop_cancels_sequence:
  assumes "k < length (tasks s)"
    and "tasks s ! k = AwaitTimer d fs \<or> tasks s ! k = AwaitResume (Inr ()) fs"
    and "\<forall>e\<in>set evs. \<not> isPlay e \<and> \<not> isSettleOf k e"
  shows "played (run (ClickStop b # evs @ [Settle k b']) s) = played s
      \<and> tasks (run (ClickStop b # evs @ [Settle k b']) s) ! k = Returned
      \<and> \<not> playing (run (ClickStop b # evs @ [Settle k b']) s)
      \<and> (suspendOk b \<or> suspendOk b' \<longrightarrow>
           audioCtx (run (ClickStop b # evs @ [Settle k b']) s) \<noteq> Some Running)"
proof -
  let ?s1 = "stop b s"
  let ?s2 = "run evs ?s1"
  have s1: "stopFlag ?s1" by simp
  note r = stopped_run [OF assms(3) s1]
  from r assms have k: "k < length (tasks ?s2)"
    "tasks ?s2 ! k = AwaitTimer d fs \<or> tasks ?s2 ! k = AwaitResume (Inr ()) fs"
    by simp_all
  from r have flag: "stopFlag ?s2" by simp
  have fin: "settle k b' ?s2 = (snd (playExit b' ?s2))\<lparr> tasks := (tasks ?s2)[k := Returned] \<rparr>"
    using settle_exit [OF k, where b = b'] flag by simp
  have run: "run (ClickStop b # evs @ [Settle k b']) s = settle k b' ?s2"
    by (simp add: run_append)
  have a1: "suspendOk b \<Longrightarrow> audioCtx ?s2 \<noteq> Some Running"
    using r by (simp add: stop_audio)
  show ?thesis
    unfolding run fin using r k(1) a1 flag by (auto simp add: playExit_audio)
qed

theorem stop_cancels_sequence_witness:
  "0 < length (tasks (run [ClickPlay cooperative] initial))
   \<and> tasks (run [ClickPlay cooperative] initial) ! 0 =
       AwaitTimer 270 (map (\<lambda>k. freqForStep 440 k 12) [1, 2, 3, 4, 5, 6, 7, 8, 9, 10, 11])
   \<and> played (run (ClickStop cooperative # [ChangeBaseHz 220, Settle 1 cooperative]
                    @ [Settle 0 cooperative]) (run [ClickPlay cooperative] initial))
       = played (run [ClickPlay cooperative] initial)
   \<and> tasks (run (ClickStop cooperative # [ChangeBaseHz 220, Settle 1 cooperative]
                   @ [Settle 0 cooperative]) (run [ClickPlay cooperative] initial)) ! 0 = Returned
   \<and> audioCtx (run (ClickStop cooperative # [ChangeBaseHz 220, Settle 1 cooperative]
                      @ [Settle 0 cooperative]) (run [ClickPlay cooperative] initial))
       \<noteq> Some Running"
proof -
  have t: "tasks (run [ClickPlay cooperative] initial) =
      [AwaitTimer 270 (map (\<lambda>k. freqForStep 440 k 12) [1, 2, 3, 4, 5, 6, 7, 8, 9, 10, 11])]"
    by (simp add: trace_defs noteMs_def gapMs_def)
  have e: "\<forall>e\<in>set [ChangeBaseHz 220, Settle 1 cooperative]. \<not> isPlay e \<and> \<not> isSettleOf 0 e"
    by simp
  have ok: "suspendOk cooperative"
    by (simp add: cooperative_def)
  from t have k: "0 < length (tasks (run [ClickPlay cooperative] initial))"
    and w: "tasks (run [ClickPlay cooperative] initial) ! 0 =
       AwaitTimer 270 (map (\<lambda>k. freqForStep 440 k 12) [1, 2, 3, 4, 5, 6, 7, 8, 9, 10, 11])"
    by simp_all
  from w have w': "tasks (run [ClickPlay cooperative] initial) ! 0 =
       AwaitTimer 270 (map (\<lambda>k. freqForStep 440 k 12) [1, 2, 3, 4, 5, 6, 7, 8, 9, 10, 11])
     \<or> tasks (run [ClickPlay cooperative] initial) ! 0 =
       AwaitResume (Inr ()) (map (\<lambda>k. freqForStep 440 k 12) [1, 2, 3, 4, 5, 6, 7, 8, 9, 10, 11])"
    by simp
  from stop_cancels_sequence [OF k w' e, of cooperative cooperative] ok k w
  show ?thesis by simp
qed

text \<open>
  C1 as stated fails where the browser rejects both suspensions: the sequence is left
  through the stop flag and the context is still running.
\<close>

theorem stop_leaves_running_counterexample:
  "tasks (run [ClickPlay cooperative, ClickStop refusing, Settle 0 refusing] initial) = [Returned]
   \<and> stopFlag (run [ClickPlay cooperative, ClickStop refusing, Settle 0 refusing] initial)
   \<and> audioCtx (run [ClickPlay cooperative, ClickStop refusing, Settle 0 refusing] initial)
       = Some Running"
  by (simp add: trace_defs)

subsection \<open>Accepted plays and executions without clicks\<close>

lemma pageFreqs_Cons: "pageFreqs s = hd (pageFreqs s) # tl (pageFreqs s)"
  using freqs_nonempty [of "baseHz s" "edo s" "noteCount s"] by (simp add: pageFreqs_def)

lemma playScale_playing: "playing s \<Longrightarrow> playScale b s = s"
  by (simp add: playScale_def)

lemma playScale_suspended:
  assumes "\<not> playing s" and "fst (ensureAudioContext b s) = Suspended"
  shows "tasks (playScale b s) =
           tasks s @ [AwaitResume (if resumeOk b then Inr () else Inl Rejected) (pageFreqs s)]"
    and "played (playScale b s) = played s"
    and "\<not> stopFlag (playScale b s)"
    and "playing (playScale b s)"
  using assms
  by (auto simp add: playScale_def ensureAudioContext_def ctx_resume_def Let_def
        split: option.splits)

lemma playScale_running:
  assumes "\<not> playing s" and "fst (ensureAudioContext b s) = Running"
  shows "tasks (playScale b s) =
           tasks s @ [AwaitTimer (noteMs + gapMs) (tl (pageFreqs s))]"
    and "played (playScale b s) =
           played s @ [(length (tasks s), scheduleNote (hd (pageFreqs s)) (currentTime b))]"
    and "\<not> stopFlag (playScale b s)"
    and "playing (playScale b s)"
proof -
  obtain f rest where fs: "pageFreqs s = f # rest"
    using pageFreqs_Cons [of s] by blast
  have loop: "\<And>x. \<not> stopFlag x \<Longrightarrow> playLoop (length (tasks s)) b (f # rest) x =
      (AwaitTimer (noteMs + gapMs) rest,
       x\<lparr> played := played x @ [(length (tasks s), scheduleNote f (currentTime b))] \<rparr>)"
    by (rule playLoop_Cons)
  show "tasks (playScale b s) = tasks s @ [AwaitTimer (noteMs + gapMs) (tl (pageFreqs s))]"
    and "played (playScale b s) =
           played s @ [(length (tasks s), scheduleNote (hd (pageFreqs s)) (currentTime b))]"
    and "\<not> stopFlag (playScale b s)"
    and "playing (playScale b s)"
    using assms fs
    by (auto simp add: playScale_def ensureAudioContext_def Let_def loop
          split: option.splits)
qed

lemma playScale_tuning [simp]:
  "baseHz (playScale b s) = baseHz s"
  "edo (playScale b s) = edo s"
  "noteCount (playScale b s) = noteCount s"
proof -
  have "baseHz (playScale b s) = baseHz s \<and> edo (playScale b s) = edo s
      \<and> noteCount (playScale b s) = noteCount s"
    by (auto simp add: playScale_def ensureAudioContext_def ctx_resume_def Let_def playLoop_def
          playExit_eq split: option.splits list.splits prod.splits)
  then show "baseHz (playScale b s) = baseHz s" "edo (playScale b s) = edo s"
    "noteCount (playScale b s) = noteCount s"
    by simp_all
qed


lemma quiet_step_dead:
  assumes "isTuning e \<or> isSettle e" and "\<forall>j<length (tasks s). \<not> live (tasks s ! j)"
  shows "tasks (step e s) = tasks s \<and> played (step e s) = played s
      \<and> stopFlag (step e s) = stopFlag s \<and> playing (step e s) = playing s
      \<and> audioCtx (step e s) = audioCtx s"
proof (cases "isTuning e")
  case True
  then show ?thesis by (simp add: tuning_frame)
next
  case False
  with assms(1) obtain j b where e: "e = Settle j b"
    by (cases e) simp_all
  have "settle j b s = s"
    using assms(2) by (cases "j < length (tasks s)") (simp_all add: settle_dead settle_out)
  with e show ?thesis by simp
qed

lemma dead_run:
  assumes "\<forall>e\<in>set evs. isTuning e \<or> isSettle e"
    and "\<forall>j<length (tasks s). \<not> live (tasks s ! j)"
  shows "tasks (run evs s) = tasks s \<and> played (run evs s) = played s
      \<and> stopFlag (run evs s) = stopFlag s \<and> playing (run evs s) = playing s
      \<and> audioCtx (run evs s) = audioCtx s"
  using assms
proof (induction evs arbitrary: s)
  case Nil
  then show ?case by simp
next
  case (Cons e evs)
  from Cons.prems have e: "isTuning e \<or> isSettle e" by simp
  note st = quiet_step_dead [OF e Cons.prems(2)]
  from Cons.prems(2) st have dead: "\<forall>j<length (tasks (step e s)). \<not> live (tasks (step e s) ! j)"
    by simp
  from Cons.prems(1) have "\<forall>e\<in>set evs. isTuning e \<or> isSettle e" by simp
  from Cons.IH [OF this dead] st show ?case by simp
qed

lemma quiet_run:
  assumes "\<forall>e\<in>set evs. isTuning e \<or> isSettle e"
    and "k < length (tasks s)"
    and "\<not> stopFlag s"
    and "\<forall>j<length (tasks s). j \<noteq> k \<longrightarrow> \<not> live (tasks s ! j)"
    and "tasks s ! k = AwaitTimer d fs \<or> tasks s ! k = AwaitResume (Inr ()) fs"
  shows "startedBy k (run evs s) = startedBy k s @ take (length (filter (isSettleOf k) evs)) fs
      \<and> (length fs < length (filter (isSettleOf k) evs) \<longrightarrow>
           tasks (run evs s) ! k = Returned \<and> \<not> playing (run evs s))
      \<and> \<not> stopFlag (run evs s)"
  using assms
proof (induction evs arbitrary: s d fs)
  case Nil
  then show ?case by simp
next
  case (Cons e evs)
  from Cons.prems(1) have quiet: "\<forall>e\<in>set evs. isTuning e \<or> isSettle e"
    and e: "isTuning e \<or> isSettle e" by simp_all
  show ?case
  proof (cases "isSettleOf k e")
    case False
    have same: "tasks (step e s) = tasks s \<and> played (step e s) = played s
        \<and> stopFlag (step e s) = stopFlag s"
    proof (cases "isTuning e")
      case True
      then show ?thesis by (simp add: tuning_frame)
    next
      case nt: False
      with e obtain j b where ev: "e = Settle j b"
        by (cases e) simp_all
      with False have "j \<noteq> k" by simp
      with Cons.prems(4) have "settle j b s = s"
        by (cases "j < length (tasks s)") (simp_all add: settle_dead settle_out)
      with ev show ?thesis by simp
    qed
    then have "startedBy k (step e s) = startedBy k s"
      by (simp add: startedBy_def)
    moreover
    from same Cons.prems have "k < length (tasks (step e s))" "\<not> stopFlag (step e s)"
      "\<forall>j<length (tasks (step e s)). j \<noteq> k \<longrightarrow> \<not> live (tasks (step e s) ! j)"
      "tasks (step e s) ! k = AwaitTimer d fs \<or> tasks (step e s) ! k = AwaitResume (Inr ()) fs"
      by simp_all
    note Cons.IH [OF quiet this]
    ultimately show ?thesis using False by simp
  next
    case True
    then obtain b where ev: "e = Settle k b"
      by (cases e) simp_all
    show ?thesis
    proof (cases "fs = []")
      case True
      let ?s1 = "(snd (playExit b s))\<lparr> tasks := (tasks s)[k := Returned] \<rparr>"
      have s1: "settle k b s = ?s1"
        using settle_exit [OF Cons.prems(2), where b = b and d = d and fs = fs and u = "()"]
          Cons.prems(5) True by simp
      have dead: "\<forall>j<length (tasks ?s1). \<not> live (tasks ?s1 ! j)"
        using Cons.prems(2,4) by (simp add: nth_list_update)
      note dr = dead_run [OF quiet dead]
      have "startedBy k (run evs ?s1) = startedBy k s"
        using dr by (simp add: startedBy_def)
      moreover have "tasks (run evs ?s1) ! k = Returned"
        using dr Cons.prems(2) by simp
      moreover have "\<not> playing (run evs ?s1)" "\<not> stopFlag (run evs ?s1)"
        using dr Cons.prems(3) by simp_all
      ultimately show ?thesis using ev s1 True by simp
    next
      case False
      then obtain f rest where fs: "fs = f # rest"
        by (cases fs) simp_all
      let ?s1 = "s\<lparr> played := played s @ [(k, scheduleNote f (currentTime b))],
                     tasks := (tasks s)[k := AwaitTimer (noteMs + gapMs) rest] \<rparr>"
      have s1: "settle k b s = ?s1"
        using settle_emit [OF Cons.prems(2), where b = b and d = d and f = f and rest = rest
            and u = "()"] Cons.prems(3,5) fs by simp
      have pre: "k < length (tasks ?s1)" "\<not> stopFlag ?s1"
        "\<forall>j<length (tasks ?s1). j \<noteq> k \<longrightarrow> \<not> live (tasks ?s1 ! j)"
        "tasks ?s1 ! k = AwaitTimer (noteMs + gapMs) rest
           \<or> tasks ?s1 ! k = AwaitResume (Inr ()) rest"
        using Cons.prems(2,3,4) by simp_all
      note ih = Cons.IH [OF quiet pre]
      have "startedBy k ?s1 = startedBy k s @ [f]"
        by (simp add: startedBy_def)
      with ih show ?thesis using ev s1 fs by simp
    qed
  qed
qed


lemma settle_cases:
  obtains (same) "settle j b s = s"
  | (throw) e where "j < length (tasks s)"
      and "settle j b s = s\<lparr> tasks := (tasks s)[j := Threw e] \<rparr>"
  | (exit) "j < length (tasks s)"
      and "settle j b s = (snd (playExit b s))\<lparr> tasks := (tasks s)[j := Returned] \<rparr>"
  | (emit) d f rest where "j < length (tasks s)" and "\<not> stopFlag s"
      and "tasks s ! j = AwaitTimer d (f # rest) \<or> tasks s ! j = AwaitResume (Inr ()) (f # rest)"
      and "settle j b s =
             s\<lparr> played := played s @ [(j, scheduleNote f (currentTime b))],
                tasks := (tasks s)[j := AwaitTimer (noteMs + gapMs) rest] \<rparr>"
proof (cases "j < length (tasks s)")
  case False
  then show ?thesis using same by (simp add: settle_out)
next
  case True
  have waiting: ?thesis
    if w: "tasks s ! j = AwaitTimer d fs \<or> tasks s ! j = AwaitResume (Inr ()) fs" for d fs
  proof (cases "stopFlag s \<or> fs = []")
    case True
    with exit \<open>j < length (tasks s)\<close> settle_exit [OF \<open>j < length (tasks s)\<close> w, of b]
    show ?thesis by blast
  next
    case False
    then obtain f rest where fs: "fs = f # rest" and ns: "\<not> stopFlag s"
      by (cases fs) simp_all
    from w fs have w': "tasks s ! j = AwaitTimer d (f # rest)
        \<or> tasks s ! j = AwaitResume (Inr ()) (f # rest)"
      by simp
    from emit [OF \<open>j < length (tasks s)\<close> ns w'] settle_emit [OF \<open>j < length (tasks s)\<close> w' ns, of b]
    show ?thesis by blast
  qed
  show ?thesis
  proof (cases "tasks s ! j")
    case (AwaitResume r fs)
    show ?thesis
    proof (cases r)
      case (Inl e)
      with AwaitResume True throw settle_throw [OF True, of e fs b] show ?thesis by blast
    next
      case (Inr u)
      with AwaitResume waiting [of 0 fs] show ?thesis by simp
    qed
  next
    case (AwaitTimer d fs)
    with waiting [of d fs] show ?thesis by simp
  next
    case Returned
    with True same show ?thesis by (simp add: settle_dead)
  next
    case (Threw e)
    with True same show ?thesis by (simp add: settle_dead)
  qed
qed


lemma followsI:
  assumes "k < length (tasks s)" and "n \<le> length fs" and "startedBy k s = pre @ take n fs"
    and "\<And>r rest. tasks s ! k = AwaitResume r rest \<Longrightarrow> rest = drop n fs"
    and "\<And>d rest. tasks s ! k = AwaitTimer d rest \<Longrightarrow> rest = drop n fs"
  shows "follows k pre fs s"
  unfolding follows_def using assms by blast

lemma follows_same:
  assumes "follows k pre fs s" and "tasks s' = tasks s" and "played s' = played s"
  shows "follows k pre fs s'"
  using assms by (simp add: follows_def startedBy_def)

lemma follows_other:
  assumes "follows k pre fs s" and "length (tasks s') = length (tasks s)"
    and "tasks s' ! k = tasks s ! k" and "startedBy k s' = startedBy k s"
  shows "follows k pre fs s'"
  using assms by (simp add: follows_def)

lemma follows_playScale:
  assumes "follows k pre fs s"
  shows "follows k pre fs (playScale b s)"
proof (cases "playing s")
  case True
  with assms show ?thesis by (simp add: playScale_playing)
next
  case False
  from assms have k: "k < length (tasks s)" by (simp add: follows_def)
  show ?thesis
  proof (cases "fst (ensureAudioContext b s)")
    case Suspended
    note p = playScale_suspended [OF False Suspended]
    from k p(1) have "k < length (tasks (playScale b s))"
      "tasks (playScale b s) ! k = tasks s ! k"
      by (simp_all add: nth_append)
    moreover from p(2) have "startedBy k (playScale b s) = startedBy k s"
      by (simp add: startedBy_def)
    ultimately show ?thesis using assms by (simp add: follows_def)
  next
    case Running
    note p = playScale_running [OF False Running]
    from k p(1) have "k < length (tasks (playScale b s))"
      "tasks (playScale b s) ! k = tasks s ! k"
      by (simp_all add: nth_append)
    moreover from p(2) k have "startedBy k (playScale b s) = startedBy k s"
      by (simp add: startedBy_def)
    ultimately show ?thesis using assms by (simp add: follows_def)
  qed
qed

lemma follows_settle:
  assumes "follows k pre fs s"
  shows "follows k pre fs (settle j b s)"
proof -
  from assms obtain n where k: "k < length (tasks s)" and n: "n \<le> length fs"
    and st: "startedBy k s = pre @ take n fs"
    and r: "\<And>r rest. tasks s ! k = AwaitResume r rest \<Longrightarrow> rest = drop n fs"
    and t: "\<And>d rest. tasks s ! k = AwaitTimer d rest \<Longrightarrow> rest = drop n fs"
    unfolding follows_def by blast
  show ?thesis
  proof (cases j b s rule: settle_cases)
    case same
    with assms show ?thesis by simp
  next
    case (throw e)
    show ?thesis
    proof (rule followsI [where n = n])
      show "k < length (tasks (settle j b s))" using throw k by simp
      show "n \<le> length fs" by (rule n)
      show "startedBy k (settle j b s) = pre @ take n fs"
        using throw st by (simp add: startedBy_def)
      show "rest = drop n fs" if "tasks (settle j b s) ! k = AwaitResume r' rest" for r' rest
        using that throw r [of r' rest] by (cases "j = k") simp_all
      show "rest = drop n fs" if "tasks (settle j b s) ! k = AwaitTimer d rest" for d rest
        using that throw t [of d rest] by (cases "j = k") simp_all
    qed
  next
    case exit
    show ?thesis
    proof (rule followsI [where n = n])
      show "k < length (tasks (settle j b s))" using exit k by simp
      show "n \<le> length fs" by (rule n)
      show "startedBy k (settle j b s) = pre @ take n fs"
        using exit st by (simp add: startedBy_def)
      show "rest = drop n fs" if "tasks (settle j b s) ! k = AwaitResume r' rest" for r' rest
        using that exit r [of r' rest] by (cases "j = k") simp_all
      show "rest = drop n fs" if "tasks (settle j b s) ! k = AwaitTimer d rest" for d rest
        using that exit t [of d rest] by (cases "j = k") simp_all
    qed
  next
    case (emit d f rest)
    show ?thesis
    proof (cases "j = k")
      case False
      show ?thesis
      proof (rule followsI [where n = n])
        show "k < length (tasks (settle j b s))" using emit k by simp
        show "n \<le> length fs" by (rule n)
        show "startedBy k (settle j b s) = pre @ take n fs"
          using emit st False by (simp add: startedBy_def)
        show "rest' = drop n fs" if "tasks (settle j b s) ! k = AwaitResume r' rest'" for r' rest'
          using that emit r [of r' rest'] False by simp
        show "rest' = drop n fs" if "tasks (settle j b s) ! k = AwaitTimer d' rest'" for d' rest'
          using that emit t [of d' rest'] False by simp
      qed
    next
      case True
      from emit(3) True r t have dr: "f # rest = drop n fs" by auto
      then have lt: "n < length fs" by (cases "n < length fs") simp_all
      from dr lt have f: "f = fs ! n" and rest: "rest = drop (Suc n) fs"
        by (simp_all add: Cons_nth_drop_Suc [symmetric])
      show ?thesis
      proof (rule followsI [where n = "Suc n"])
        show "k < length (tasks (settle j b s))" using emit k by simp
        show "Suc n \<le> length fs" using lt by simp
        show "startedBy k (settle j b s) = pre @ take (Suc n) fs"
          using emit st True f lt by (simp add: startedBy_def take_Suc_conv_app_nth)
        show "rest' = drop (Suc n) fs" if "tasks (settle j b s) ! k = AwaitResume r' rest'"
          for r' rest'
          using that emit True k by simp
        show "rest' = drop (Suc n) fs" if "tasks (settle j b s) ! k = AwaitTimer d' rest'"
          for d' rest'
          using that emit True k rest by simp
      qed
    qed
  qed
qed

lemma follows_step:
  assumes "follows k pre fs s"
  shows "follows k pre fs (step e s)"
proof (cases e)
  case (ClickPlay b)
  with assms show ?thesis by (simp add: follows_playScale)
next
  case (ClickStop b)
  with assms show ?thesis by (simp add: follows_same [OF assms])
next
  case (Settle j b)
  with assms show ?thesis by (simp add: follows_settle)
next
  case (ChangeBaseHz v)
  then have "isTuning e" by simp
  then show ?thesis by (simp add: follows_same [OF assms] tuning_frame)
next
  case (ChangeEdo v)
  then have "isTuning e" by simp
  then show ?thesis by (simp add: follows_same [OF assms] tuning_frame)
next
  case (ChangeNoteCount v)
  then have "isTuning e" by simp
  then show ?thesis by (simp add: follows_same [OF assms] tuning_frame)
next
  case (ChangePreset name)
  then have "isTuning e" by simp
  then show ?thesis by (simp add: follows_same [OF assms] tuning_frame)
qed

lemma follows_run: "follows k pre fs s \<Longrightarrow> follows k pre fs (run evs s)"
  by (induction evs arbitrary: s) (simp_all add: follows_step)

lemma follows_play:
  assumes "\<not> playing s"
  shows "follows (length (tasks s)) (startedBy (length (tasks s)) s) (pageFreqs s) (playScale b s)"
proof (cases "fst (ensureAudioContext b s)")
  case Suspended
  note p = playScale_suspended [OF assms Suspended]
  show ?thesis
  proof (rule followsI [where n = 0])
    show "startedBy (length (tasks s)) (playScale b s) =
        startedBy (length (tasks s)) s @ take 0 (pageFreqs s)"
      using p(2) by (simp add: startedBy_def)
  qed (simp_all add: p(1))
next
  case Running
  note p = playScale_running [OF assms Running]
  obtain f rest where fs: "pageFreqs s = f # rest"
    using pageFreqs_Cons [of s] by blast
  show ?thesis
  proof (rule followsI [where n = 1])
    show "startedBy (length (tasks s)) (playScale b s) =
        startedBy (length (tasks s)) s @ take 1 (pageFreqs s)"
      using p(2) fs by (simp add: startedBy_def)
    show "1 \<le> length (pageFreqs s)"
      using fs by simp
  qed (simp_all add: p(1) fs)
qed


lemma play_then_quiet:
  assumes "\<not> playing s"
    and "\<forall>j<length (tasks s). \<not> live (tasks s ! j)"
    and "\<forall>e\<in>set evs. isTuning e \<or> isSettle e"
    and "resumeOk b"
    and "length (pageFreqs s) \<le> length (filter (isSettleOf (length (tasks s))) evs)"
  shows "startedBy (length (tasks s)) (run evs (playScale b s)) =
           startedBy (length (tasks s)) s @ pageFreqs s"
proof -
  let ?k = "length (tasks s)"
  let ?s1 = "playScale b s"
  let ?m = "length (filter (isSettleOf ?k) evs)"
  obtain f rest where fs: "pageFreqs s = f # rest"
    using pageFreqs_Cons [of s] by blast
  show ?thesis
  proof (cases "fst (ensureAudioContext b s)")
    case Suspended
    note p = playScale_suspended [OF assms(1) Suspended]
    have "?k < length (tasks ?s1)" "\<not> stopFlag ?s1"
      "\<forall>j<length (tasks ?s1). j \<noteq> ?k \<longrightarrow> \<not> live (tasks ?s1 ! j)"
      "tasks ?s1 ! ?k = AwaitTimer 0 (pageFreqs s)
         \<or> tasks ?s1 ! ?k = AwaitResume (Inr ()) (pageFreqs s)"
      using p assms(2,4) by (simp_all add: nth_append)
    from quiet_run [OF assms(3) this]
    have "startedBy ?k (run evs ?s1) = startedBy ?k ?s1 @ take ?m (pageFreqs s)"
      by simp
    moreover have "startedBy ?k ?s1 = startedBy ?k s"
      using p(2) by (simp add: startedBy_def)
    ultimately show ?thesis using assms(5) by simp
  next
    case Running
    note p = playScale_running [OF assms(1) Running]
    have "?k < length (tasks ?s1)" "\<not> stopFlag ?s1"
      "\<forall>j<length (tasks ?s1). j \<noteq> ?k \<longrightarrow> \<not> live (tasks ?s1 ! j)"
      "tasks ?s1 ! ?k = AwaitTimer (noteMs + gapMs) rest
         \<or> tasks ?s1 ! ?k = AwaitResume (Inr ()) rest"
      using p assms(2) fs by (simp_all add: nth_append)
    from quiet_run [OF assms(3) this]
    have "startedBy ?k (run evs ?s1) = startedBy ?k ?s1 @ take ?m rest"
      by simp
    moreover have "startedBy ?k ?s1 = startedBy ?k s @ [f]"
      using p(2) fs by (simp add: startedBy_def)
    ultimately show ?thesis using assms(5) fs by simp
  qed
qed

lemma idle_dead: "idle s \<Longrightarrow> \<forall>j<length (tasks s). \<not> live (tasks s ! j)"
  by (simp add: idle_def list_all_length)

subsection \<open>A sequence plays the list it was called with\<close>

text \<open>
  C9. A call of \<^verbatim>\<open>playScale\<close> that is accepted becomes task \<open>length (tasks s)\<close> and
  holds the \<^verbatim>\<open>freqs\<close> of the render it was called in. Whatever runs afterwards, the
  notes this task starts are a prefix of that list, in its order. When the page was idle,
  the resume is not rejected and only tuning changes and continuations run afterwards,
  with at least as many continuations of the task as the list is long, the task starts
  exactly that list, although the tuning has changed meanwhile.
\<close>

theorem sequence_is_captured_list:
  assumes "\<not> playing s"
  shows "(\<exists>n. startedBy (length (tasks s)) (run (ClickPlay b # evs) s) =
                startedBy (length (tasks s)) s @ take n (pageFreqs s))
      \<and> (idle s \<and> (\<forall>e\<in>set evs. isTuning e \<or> isSettle e) \<and> resumeOk b
           \<and> length (pageFreqs s) \<le> length (filter (isSettleOf (length (tasks s))) evs)
         \<longrightarrow> startedBy (length (tasks s)) (run (ClickPlay b # evs) s) =
               startedBy (length (tasks s)) s @ pageFreqs s)"
proof
  have "follows (length (tasks s)) (startedBy (length (tasks s)) s) (pageFreqs s)
          (run evs (playScale b s))"
    by (rule follows_run [OF follows_play [OF assms]])
  then show "\<exists>n. startedBy (length (tasks s)) (run (ClickPlay b # evs) s) =
                startedBy (length (tasks s)) s @ take n (pageFreqs s)"
    unfolding follows_def by auto
next
  show "idle s \<and> (\<forall>e\<in>set evs. isTuning e \<or> isSettle e) \<and> resumeOk b
           \<and> length (pageFreqs s) \<le> length (filter (isSettleOf (length (tasks s))) evs)
         \<longrightarrow> startedBy (length (tasks s)) (run (ClickPlay b # evs) s) =
               startedBy (length (tasks s)) s @ pageFreqs s"
    using play_then_quiet [OF assms idle_dead, of evs b] by simp
qed

theorem sequence_is_captured_list_witness:
  "\<not> playing (run [ChangeNoteCount 2] initial)
   \<and> idle (run [ChangeNoteCount 2] initial)
   \<and> resumeOk cooperative
   \<and> pageFreqs (run [ChangeNoteCount 2] initial) = [freqForStep 440 0 12, freqForStep 440 1 12]
   \<and> startedBy 0
        (run (ClickPlay cooperative #
              [ChangeBaseHz 220, Settle 0 cooperative, ChangeEdo 19, Settle 0 cooperative,
               ChangeNoteCount 5, Settle 0 cooperative])
           (run [ChangeNoteCount 2] initial))
       = [freqForStep 440 0 12, freqForStep 440 1 12]"
proof -
  let ?s = "run [ChangeNoteCount 2] initial"
  let ?evs = "[ChangeBaseHz 220, Settle 0 cooperative, ChangeEdo 19, Settle 0 cooperative,
               ChangeNoteCount 5, Settle 0 cooperative]"
  have s: "\<not> playing ?s" "idle ?s" "resumeOk cooperative" "length (tasks ?s) = 0"
    "startedBy 0 ?s = []"
    "pageFreqs ?s = [freqForStep 440 0 12, freqForStep 440 1 12]"
    by (simp_all add: two_defs)
  have q: "\<forall>e\<in>set ?evs. isTuning e \<or> isSettle e"
    by simp
  have n: "length (pageFreqs ?s) \<le> length (filter (isSettleOf (length (tasks ?s))) ?evs)"
    by (simp add: two_defs)
  from sequence_is_captured_list [OF s(1), of cooperative ?evs] s q n
  show ?thesis by simp
qed

subsection \<open>A stop before the play\<close>

lemma pageFreqs_stop [simp]: "pageFreqs (stop b s) = pageFreqs s"
  by (simp add: pageFreqs_def)

text \<open>
  On an idle page, \<^verbatim>\<open>stop()\<close> followed by \<^verbatim>\<open>playScale()\<close> leaves the stop flag false
  and a new task started: the flag of the earlier stop is gone. When the resume of that
  play is not rejected and only tuning changes and continuations run afterwards, the
  task starts every frequency of its list.
\<close>

lemma stop_then_play_from_idle:
  assumes "idle s"
  shows "\<not> stopFlag (run [ClickStop b, ClickPlay b'] s)
      \<and> playing (run [ClickStop b, ClickPlay b'] s)
      \<and> length (tasks (run [ClickStop b, ClickPlay b'] s)) = Suc (length (tasks s))
      \<and> ((\<forall>e\<in>set evs. isTuning e \<or> isSettle e) \<and> resumeOk b'
           \<and> length (pageFreqs s) \<le> length (filter (isSettleOf (length (tasks s))) evs)
         \<longrightarrow> startedBy (length (tasks s)) (run (ClickStop b # ClickPlay b' # evs) s) =
               startedBy (length (tasks s)) s @ pageFreqs s)"
proof -
  let ?s0 = "stop b s"
  have np: "\<not> playing ?s0" by simp
  have dead: "\<forall>j<length (tasks ?s0). \<not> live (tasks ?s0 ! j)"
    using idle_dead [OF assms] by simp
  have full: "startedBy (length (tasks s)) (run (ClickStop b # ClickPlay b' # evs) s) =
          startedBy (length (tasks s)) s @ pageFreqs s"
    if q: "\<forall>e\<in>set evs. isTuning e \<or> isSettle e" and r: "resumeOk b'"
      and n: "length (pageFreqs s) \<le> length (filter (isSettleOf (length (tasks s))) evs)"
  proof -
    have "length (pageFreqs ?s0) \<le> length (filter (isSettleOf (length (tasks ?s0))) evs)"
      using n by simp
    from play_then_quiet [OF np dead q r this] show ?thesis
      by (simp add: startedBy_def)
  qed
  have "\<not> stopFlag (playScale b' ?s0) \<and> playing (playScale b' ?s0)
      \<and> length (tasks (playScale b' ?s0)) = Suc (length (tasks s))"
  proof (cases "fst (ensureAudioContext b' ?s0)")
    case Suspended
    from playScale_suspended [OF np Suspended] show ?thesis by simp
  next
    case Running
    from playScale_running [OF np Running] show ?thesis by simp
  qed
  with full show ?thesis by simp
qed

lemma stop_then_play_from_idle_example:
  "idle (run [ChangeNoteCount 2] initial)
   \<and> resumeOk cooperative
   \<and> \<not> stopFlag (run [ClickStop cooperative, ClickPlay cooperative] (run [ChangeNoteCount 2] initial))
   \<and> startedBy 0
        (run (ClickStop cooperative # ClickPlay cooperative #
              [Settle 0 cooperative, Settle 0 cooperative, Settle 0 cooperative])
           (run [ChangeNoteCount 2] initial))
       = [freqForStep 440 0 12, freqForStep 440 1 12]"
proof -
  let ?s = "run [ChangeNoteCount 2] initial"
  let ?evs = "[Settle 0 cooperative, Settle 0 cooperative, Settle 0 cooperative]"
  have s: "idle ?s" "resumeOk cooperative" "length (tasks ?s) = 0"
    "startedBy 0 ?s = []"
    "pageFreqs ?s = [freqForStep 440 0 12, freqForStep 440 1 12]"
    by (simp_all add: two_defs)
  have q: "\<forall>e\<in>set ?evs. isTuning e \<or> isSettle e"
    by simp
  have n: "length (pageFreqs ?s) \<le> length (filter (isSettleOf (length (tasks ?s))) ?evs)"
    by (simp add: two_defs)
  from stop_then_play_from_idle [OF s(1), of cooperative cooperative ?evs] s q n
  show ?thesis by simp
qed

text \<open>
  C10 on the code. The page is idle with its context running, after a sequence of two
  notes has played to its end. A click on Play whose \<^verbatim>\<open>resume()\<close> would be rejected then
  plays both notes, since the running context needs no resume. With a click on Stop before
  it, \<^verbatim>\<open>stop\<close> suspends the context, the same Play calls \<^verbatim>\<open>resume()\<close>, the rejection is
  thrown out of \<^verbatim>\<open>playScale\<close>, and no note is started: the stop made while idle has
  cancelled the sequence.
\<close>

theorem stale_stop_cancels_when_resume_rejected:
  "idle (run [ChangeNoteCount 2, ClickPlay cooperative, Settle 0 cooperative,
              Settle 0 cooperative] initial)
   \<and> audioCtx (run [ChangeNoteCount 2, ClickPlay cooperative, Settle 0 cooperative,
                    Settle 0 cooperative] initial) = Some Running
   \<and> startedBy 1 (run [ClickPlay refusing, Settle 1 refusing, Settle 1 refusing]
        (run [ChangeNoteCount 2, ClickPlay cooperative, Settle 0 cooperative,
              Settle 0 cooperative] initial))
       = [freqForStep 440 0 12, freqForStep 440 1 12]
   \<and> startedBy 1 (run [ClickStop cooperative, ClickPlay refusing, Settle 1 refusing,
                       Settle 1 refusing]
        (run [ChangeNoteCount 2, ClickPlay cooperative, Settle 0 cooperative,
              Settle 0 cooperative] initial))
       = []
   \<and> tasks (run [ClickStop cooperative, ClickPlay refusing, Settle 1 refusing,
                 Settle 1 refusing]
        (run [ChangeNoteCount 2, ClickPlay cooperative, Settle 0 cooperative,
              Settle 0 cooperative] initial))
       = [Returned, Threw Rejected]"
  by (simp add: two_defs)

subsection \<open>The envelope and the pacing of every note\<close>








subsection \<open>Play while an earlier sequence is still waiting\<close>

text \<open>
  C2 on the code. \<^verbatim>\<open>stop\<close> clears \<^verbatim>\<open>playingRef\<close> while the loop of the stopped call still
  waits for its timer, so a click on Play before that timer fires is accepted and clears
  the stop flag; the first call then goes on. After Play, Stop, Play and the two
  continuations, the notes started are of task 0, task 1 and task 0 again, and both tasks
  wait for their next note.
\<close>

theorem second_sequence_starts_after_stop:
  "map fst (played (run [ClickPlay cooperative, ClickStop cooperative, ClickPlay cooperative,
                         Settle 1 cooperative, Settle 0 cooperative] initial)) = [0, 1, 0]
   \<and> map live (tasks (run [ClickPlay cooperative, ClickStop cooperative, ClickPlay cooperative,
                            Settle 1 cooperative, Settle 0 cooperative] initial)) = [True, True]"
  by (simp add: trace_defs)

subsection \<open>A rejected resume\<close>

text \<open>
  C7 on the code. \<^verbatim>\<open>await ctx.resume()\<close> has no \<^verbatim>\<open>try\<close> around it. After a sequence
  that was stopped, a Play whose \<^verbatim>\<open>resume()\<close> is rejected throws: the task starts no
  note, \<^verbatim>\<open>playingRef\<close> stays true, and a further click on Play changes nothing.
\<close>

theorem rejected_resume_is_thrown:
  "tasks (run [ClickPlay cooperative, ClickStop cooperative, Settle 0 cooperative,
               ClickPlay refusing, Settle 1 refusing] initial) = [Returned, Threw Rejected]
   \<and> playing (run [ClickPlay cooperative, ClickStop cooperative, Settle 0 cooperative,
                   ClickPlay refusing, Settle 1 refusing] initial)
   \<and> startedBy 1 (run [ClickPlay cooperative, ClickStop cooperative, Settle 0 cooperative,
                   ClickPlay refusing, Settle 1 refusing] initial) = []
   \<and> run [ClickPlay cooperative, ClickStop cooperative, Settle 0 cooperative,
          ClickPlay refusing, Settle 1 refusing, ClickPlay cooperative] initial
     = run [ClickPlay cooperative, ClickStop cooperative, Settle 0 cooperative,
          ClickPlay refusing, Settle 1 refusing] initial"
  by (simp add: trace_defs startedBy_def)

subsection \<open>Tuning input\<close>

text \<open>
  The two integer parameters are rounded and clamped by their handlers, to the nearest
  value of the range, and stay in their ranges in every execution.
\<close>

lemma clampInt_nearest:
  assumes "mn \<le> m" and "m \<le> mx"
  shows "\<bar>clampInt n mn mx - round n\<bar> \<le> \<bar>m - round n\<bar>"
  using assms by (simp add: clampInt_def max_def min_def)

lemma clampInt_in_range: "mn \<le> round n \<Longrightarrow> round n \<le> mx \<Longrightarrow> clampInt n mn mx = round n"
  by (simp add: clampInt_def)

lemma onChangeEdo_clamps: "edo (onChangeEdo v s) = clampInt v 5 53"
  by (simp add: onChangeEdo_def setEdo_def edoEffects_def)

lemma onChangeNoteCount_clamps: "noteCount (onChangeNoteCount v s) = clampInt v 1 (edo s)"
  by (simp add: onChangeNoteCount_def)

lemma setEdo_tuningOk:
  assumes "tuningOk s" and "5 \<le> e" and "e \<le> 53"
  shows "tuningOk (setEdo e s)"
  using assms clampInt_ge_min [of 1 "real_of_int (noteCount s)" e]
    clampInt_le_max [of 1 e "real_of_int (noteCount s)"]
  by (simp add: tuningOk_def setEdo_def edoEffects_def)

lemma preset_range:
  "find (\<lambda>x. fst x = name) PRESETS = Some p \<Longrightarrow> 5 \<le> snd p \<and> snd p \<le> 53"
  by (auto simp add: PRESETS_def split: if_splits)

lemma settle_tuning [simp]:
  "baseHz (settle j b s) = baseHz s"
  "edo (settle j b s) = edo s"
  "noteCount (settle j b s) = noteCount s"
proof -
  have "baseHz (settle j b s) = baseHz s \<and> edo (settle j b s) = edo s
      \<and> noteCount (settle j b s) = noteCount s"
    by (cases j b s rule: settle_cases) (simp_all add: playExit_eq)
  then show "baseHz (settle j b s) = baseHz s" "edo (settle j b s) = edo s"
    "noteCount (settle j b s) = noteCount s"
    by simp_all
qed

lemma tuningOk_step:
  assumes "tuningOk s"
  shows "tuningOk (step e s)"
proof (cases e)
  case (ClickPlay b)
  with assms show ?thesis by (simp add: tuningOk_def)
next
  case (ClickStop b)
  with assms show ?thesis by (simp add: tuningOk_def)
next
  case (Settle j b)
  with assms show ?thesis by (simp add: tuningOk_def)
next
  case (ChangeBaseHz v)
  with assms show ?thesis by (simp add: tuningOk_def onChangeBaseHz_def)
next
  case (ChangeEdo v)
  have "5 \<le> clampInt v 5 53" "clampInt v 5 53 \<le> 53"
    by (simp_all add: clampInt_ge_min clampInt_le_max)
  with ChangeEdo setEdo_tuningOk [OF assms] show ?thesis
    by (simp add: onChangeEdo_def)
next
  case (ChangeNoteCount v)
  from assms have "1 \<le> edo s" by (simp add: tuningOk_def)
  with ChangeNoteCount assms clampInt_ge_min [of 1 v "edo s"] clampInt_le_max [of 1 "edo s" v]
  show ?thesis
    by (simp add: tuningOk_def onChangeNoteCount_def)
next
  case (ChangePreset name)
  from assms have ok: "tuningOk (s\<lparr> presetName := name \<rparr>)"
    by (simp add: tuningOk_def)
  show ?thesis
  proof (cases "find (\<lambda>x. fst x = name) PRESETS")
    case None
    with ChangePreset ok show ?thesis by (simp add: onChangePreset_def)
  next
    case (Some p)
    from preset_range [OF Some] setEdo_tuningOk [OF ok, of "snd p"]
    show ?thesis using ChangePreset Some by (simp add: onChangePreset_def)
  qed
qed

lemma tuningOk_run: "tuningOk s \<Longrightarrow> tuningOk (run evs s)"
  by (induction evs arbitrary: s) (simp_all add: tuningOk_step)

lemma integer_parameters_in_range:
  "5 \<le> edo (run evs initial) \<and> edo (run evs initial) \<le> 53
   \<and> 1 \<le> noteCount (run evs initial) \<and> noteCount (run evs initial) \<le> edo (run evs initial)"
proof -
  have "tuningOk initial" by (simp add: tuningOk_def initial_def)
  from tuningOk_run [OF this, of evs] show ?thesis by (simp add: tuningOk_def)
qed

text \<open>
  C3 on the code. The handler of the base frequency stores the number as it is:
  \<open>5000\<close> and \<open>0\<close> are taken, and the scale starts at \<open>5000\<close> Hz.
\<close>

theorem base_frequency_is_not_clamped:
  "baseHz (run [ChangeBaseHz 5000] initial) = 5000
   \<and> \<not> baseHz (run [ChangeBaseHz 5000] initial) \<le> 2000
   \<and> hd (pageFreqs (run [ChangeBaseHz 5000] initial)) = 5000
   \<and> baseHz (run [ChangeBaseHz 0] initial) = 0
   \<and> \<not> 50 \<le> baseHz (run [ChangeBaseHz 0] initial)"
  by (simp add: onChangeBaseHz_def initial_def pageFreqs_def freqs_initial freqForStep_def)

text \<open>
  A consequence for the scale: with the field emptied the base frequency is \<open>0\<close> and every
  frequency of the scale is \<open>0\<close>, so the scale is no longer increasing.
\<close>

lemma emptied_base_gives_constant_scale:
  "1 < length (pageFreqs (run [ChangeBaseHz 0] initial))
   \<and> \<not> pageFreqs (run [ChangeBaseHz 0] initial) ! 0 < pageFreqs (run [ChangeBaseHz 0] initial) ! 1"
  by (simp add: pageFreqs_def onChangeBaseHz_def initial_def freqs_initial freqForStep_def)

end
